theory Spec2Isabelle
  imports Main "HOL-Library.Char_ord" "HOL-Library.List_Lexorder" "HOL-Library.Multiset"
begin

section \<open>Package uci: package-manager commands\<close>

text \<open>
  Go strings are byte sequences; they are modelled as \<open>string\<close> (lists of 8-bit
  characters). A Go slice is a list; where the code distinguishes a nil slice from an
  empty one (\<open>installedPackages != nil\<close>) the slice is an \<open>option\<close> with \<open>None\<close>
  for nil.
\<close>

record Package =
  Name :: string
  Version :: string

text \<open>The Go struct \<open>InstalledPackage\<close> has the same two fields as \<open>Package\<close>; its
  selectors carry a prefix because one theory cannot hold two records with equal field names.\<close>

record InstalledPackage =
  InstalledName :: string
  InstalledVersion :: string

text \<open>The inner loop \<open>for _, installed := range installedPackages\<close> with its \<open>break\<close>.\<close>

fun isInstalled :: "InstalledPackage list \<Rightarrow> string \<Rightarrow> bool" where
  "isInstalled [] pkg = False"
| "isInstalled (installed # rest) pkg =
     (if InstalledName installed = pkg then True else isInstalled rest pkg)"

text \<open>The two filter loops; the accumulator is the slice being appended to.\<close>

fun filterUninstallLoop :: "InstalledPackage list \<Rightarrow> string list \<Rightarrow> string list \<Rightarrow> string list" where
  "filterUninstallLoop installedPackages acc [] = acc"
| "filterUninstallLoop installedPackages acc (pkg # rest) =
     (if isInstalled installedPackages pkg
      then filterUninstallLoop installedPackages (acc @ [pkg]) rest
      else filterUninstallLoop installedPackages acc rest)"

fun filterInstallLoop :: "InstalledPackage list \<Rightarrow> Package list \<Rightarrow> Package list \<Rightarrow> Package list" where
  "filterInstallLoop installedPackages acc [] = acc"
| "filterInstallLoop installedPackages acc (pkg # rest) =
     (if \<not> isInstalled installedPackages (Name pkg)
      then filterInstallLoop installedPackages (acc @ [pkg]) rest
      else filterInstallLoop installedPackages acc rest)"

text \<open>The loop building \<open>pkgList\<close>: \<open>if i > 0 { pkgList += " " }; pkgList += pkg\<close>.\<close>

fun pkgListLoop :: "nat \<Rightarrow> string \<Rightarrow> string list \<Rightarrow> string" where
  "pkgListLoop i pkgList [] = pkgList"
| "pkgListLoop i pkgList (pkg # rest) =
     pkgListLoop (Suc i) ((if i > 0 then pkgList @ '' '' else pkgList) @ pkg) rest"

definition GetPackageCommands ::
  "Package list \<Rightarrow> string list \<Rightarrow> InstalledPackage list option \<Rightarrow> string list" where
  "GetPackageCommands packagesToInstall packagesToUninstall installedPackages =
     (let (filteredInstall, filteredUninstall) =
            (case installedPackages of
               Some installed \<Rightarrow>
                 (filterInstallLoop installed [] packagesToInstall,
                  filterUninstallLoop installed [] packagesToUninstall)
             | None \<Rightarrow> (packagesToInstall, packagesToUninstall));
          commands1 =
            (if length filteredUninstall > 0
             then [''opkg remove --force-removal-of-dependent-packages '' @
                   pkgListLoop 0 [] filteredUninstall]
             else []);
          commands2 =
            (if length filteredInstall > 0
             then commands1 @ [''opkg update;''] @
                  [''opkg install '' @ pkgListLoop 0 [] (map Name filteredInstall)]
             else commands1)
      in commands2)"

text \<open>Closed forms used to state the results: joining with single spaces, and the
  names that survive the already-installed filter.\<close>

fun joinSpace :: "string list \<Rightarrow> string" where
  "joinSpace [] = []"
| "joinSpace [x] = x"
| "joinSpace (x # y # ys) = x @ '' '' @ joinSpace (y # ys)"

definition keepUninstall :: "InstalledPackage list option \<Rightarrow> string list \<Rightarrow> string list" where
  "keepUninstall installedPackages names =
     (case installedPackages of
        None \<Rightarrow> names
      | Some ps \<Rightarrow> filter (\<lambda>n. n \<in> set (map InstalledName ps)) names)"

definition keepInstall :: "InstalledPackage list option \<Rightarrow> string list \<Rightarrow> string list" where
  "keepInstall installedPackages names =
     (case installedPackages of
        None \<Rightarrow> names
      | Some ps \<Rightarrow> filter (\<lambda>n. n \<notin> set (map InstalledName ps)) names)"

definition packageCommandsOf :: "string list \<Rightarrow> string list \<Rightarrow> string list" where
  "packageCommandsOf installNames uninstallNames =
     (if uninstallNames = [] then []
      else [''opkg remove --force-removal-of-dependent-packages '' @ joinSpace uninstallNames]) @
     (if installNames = [] then []
      else [''opkg update;'', ''opkg install '' @ joinSpace installNames])"

subsection \<open>Loop lemmas\<close>

lemma isInstalled_iff: "isInstalled ps n \<longleftrightarrow> n \<in> set (map InstalledName ps)"
  by (induction ps) auto

lemma filterUninstallLoop_eq:
  "filterUninstallLoop ps acc ns = acc @ filter (\<lambda>n. n \<in> set (map InstalledName ps)) ns"
  by (induction ns arbitrary: acc) (simp_all add: isInstalled_iff)

lemma filterInstallLoop_eq:
  "filterInstallLoop ps acc xs = acc @ filter (\<lambda>p. Name p \<notin> set (map InstalledName ps)) xs"
  by (induction xs arbitrary: acc) (simp_all add: isInstalled_iff)

lemma pkgListLoop_Suc: "pkgListLoop (Suc i) acc ns = acc @ concat (map (\<lambda>n. '' '' @ n) ns)"
  by (induction ns arbitrary: i acc) simp_all

lemma joinSpace_Cons: "joinSpace (n # ns) = n @ concat (map (\<lambda>n. '' '' @ n) ns)"
  by (induction ns arbitrary: n) simp_all

lemma pkgListLoop_eq: "pkgListLoop 0 [] ns = joinSpace ns"
  by (cases ns) (simp_all add: pkgListLoop_Suc joinSpace_Cons)

lemma GetPackageCommands_eq:
  "GetPackageCommands install uninstall installed =
     packageCommandsOf (keepInstall installed (map Name install)) (keepUninstall installed uninstall)"
proof (cases installed)
  case None
  then show ?thesis
    by (simp add: GetPackageCommands_def packageCommandsOf_def keepInstall_def keepUninstall_def
        pkgListLoop_eq)
next
  case (Some ps)
  have names: "filter (\<lambda>n. n \<notin> set (map InstalledName ps)) (map Name install) =
      map Name (filter (\<lambda>p. Name p \<notin> set (map InstalledName ps)) install)"
    by (simp add: filter_map o_def)
  show ?thesis
    unfolding GetPackageCommands_def packageCommandsOf_def keepInstall_def keepUninstall_def
      Some option.case names filterUninstallLoop_eq filterInstallLoop_eq pkgListLoop_eq
    by simp
qed

subsection \<open>Claims on the package commands\<close>

text \<open>
  Claim C3 (as stated: the removal and the install command list the package names in
  sorted order). \<open>GetPackageCommands\<close> has no sorting step: for the install directives
  \<open>b, a\<close> and the uninstall names \<open>z, y\<close> it emits them as given, which is not the
  text a sorted emission would produce.
\<close>

theorem GetPackageCommands_sorted_counterexample:
  "GetPackageCommands [\<lparr>Name = ''b'', Version = ''''\<rparr>, \<lparr>Name = ''a'', Version = ''''\<rparr>]
       [''z'', ''y''] None =
     [''opkg remove --force-removal-of-dependent-packages z y'', ''opkg update;'',
      ''opkg install b a'']
   \<and> GetPackageCommands [\<lparr>Name = ''b'', Version = ''''\<rparr>, \<lparr>Name = ''a'', Version = ''''\<rparr>]
       [''z'', ''y''] None \<noteq>
     packageCommandsOf (sort [''b'', ''a'']) (sort [''z'', ''y''])"
  by (simp add: GetPackageCommands_def packageCommandsOf_def)

text \<open>
  Claim C3 (amended): the removal command and the install command each list the names
  joined by single spaces in the order in which the directives were passed in (after the
  already-installed filter, which keeps that order); nothing is sorted, so the command
  text follows the order of the directives.
\<close>

theorem GetPackageCommands_given_order:
  "GetPackageCommands install uninstall installed =
     packageCommandsOf (keepInstall installed (map Name install))
       (keepUninstall installed uninstall)"
  by (rule GetPackageCommands_eq)

theorem GetPackageCommands_given_order_witness:
  "GetPackageCommands [\<lparr>Name = ''b'', Version = ''''\<rparr>, \<lparr>Name = ''a'', Version = ''''\<rparr>,
        \<lparr>Name = ''c'', Version = ''''\<rparr>] [''z'', ''y'']
       (Some [\<lparr>InstalledName = ''y'', InstalledVersion = ''1''\<rparr>,
              \<lparr>InstalledName = ''c'', InstalledVersion = ''2''\<rparr>]) =
     [''opkg remove --force-removal-of-dependent-packages y'', ''opkg update;'',
      ''opkg install b a'']"
  using GetPackageCommands_given_order
    [of "[\<lparr>Name = ''b'', Version = ''''\<rparr>, \<lparr>Name = ''a'', Version = ''''\<rparr>,
          \<lparr>Name = ''c'', Version = ''''\<rparr>]" "[''z'', ''y'']"
        "Some [\<lparr>InstalledName = ''y'', InstalledVersion = ''1''\<rparr>,
               \<lparr>InstalledName = ''c'', InstalledVersion = ''2''\<rparr>]"]
  by (simp add: packageCommandsOf_def keepInstall_def keepUninstall_def)

text \<open>
  Claim C10: a pinned version never influences an emitted command. Two lists of install
  directives with the same names in the same order, whatever their \<open>Version\<close> fields,
  give the same commands for every uninstall list and every installed-package snapshot
  (absent or present): the install command is built from \<open>Name\<close> alone and the
  already-installed filter compares \<open>Name\<close> alone.
\<close>

theorem GetPackageCommands_ignores_Version:
  assumes "map Name install1 = map Name install2"
  shows "GetPackageCommands install1 uninstall installed =
         GetPackageCommands install2 uninstall installed"
  by (simp add: GetPackageCommands_eq assms)

theorem GetPackageCommands_ignores_Version_witness:
  "GetPackageCommands [\<lparr>Name = ''luci'', Version = ''1.2''\<rparr>, \<lparr>Name = ''sqm'', Version = ''''\<rparr>]
       [''firewall4''] (Some [\<lparr>InstalledName = ''sqm'', InstalledVersion = ''9''\<rparr>]) =
   GetPackageCommands [\<lparr>Name = ''luci'', Version = ''7''\<rparr>, \<lparr>Name = ''sqm'', Version = ''3''\<rparr>]
       [''firewall4''] (Some [\<lparr>InstalledName = ''sqm'', InstalledVersion = ''9''\<rparr>])
   \<and> GetPackageCommands [\<lparr>Name = ''luci'', Version = ''1.2''\<rparr>, \<lparr>Name = ''sqm'', Version = ''''\<rparr>]
       [''firewall4''] (Some [\<lparr>InstalledName = ''sqm'', InstalledVersion = ''9''\<rparr>]) =
     [''opkg update;'', ''opkg install luci'']"
proof -
  have names: "map Name [\<lparr>Name = ''luci'', Version = ''1.2''\<rparr>, \<lparr>Name = ''sqm'', Version = ''''\<rparr>] =
      map Name [\<lparr>Name = ''luci'', Version = ''7''\<rparr>, \<lparr>Name = ''sqm'', Version = ''3''\<rparr>]"
    by simp
  have run: "GetPackageCommands [\<lparr>Name = ''luci'', Version = ''1.2''\<rparr>, \<lparr>Name = ''sqm'', Version = ''''\<rparr>]
       [''firewall4''] (Some [\<lparr>InstalledName = ''sqm'', InstalledVersion = ''9''\<rparr>]) =
     [''opkg update;'', ''opkg install luci'']"
    by (simp add: GetPackageCommands_def)
  from GetPackageCommands_ignores_Version [OF names] run show ?thesis
    by blast
qed

section \<open>Go maps\<close>

text \<open>
  A Go \<open>map[string]T\<close> that the code ranges over is modelled as an association list
  with pairwise distinct keys. A \<open>range\<close> loop visits the entries in an order the Go
  runtime chooses afresh each time; a loop function below takes the entries in the order
  of the visit, and \<open>goRange m visit\<close> says that \<open>visit\<close> is a possible visiting order
  of the map \<open>m\<close>. A \<open>map[string]bool\<close> that is only read is a function with the zero
  value \<open>False\<close> for absent keys.
\<close>

definition goRange :: "('k \<times> 'v) list \<Rightarrow> ('k \<times> 'v) list \<Rightarrow> bool" where
  "goRange m visit = (distinct (map fst visit) \<and> set visit = set m)"

text \<open>\<open>m[k] = v\<close>\<close>

fun mapStore :: "'k \<Rightarrow> 'v \<Rightarrow> ('k \<times> 'v) list \<Rightarrow> ('k \<times> 'v) list" where
  "mapStore k v [] = [(k, v)]"
| "mapStore k v ((k', v') # m) = (if k' = k then (k, v) # m else (k', v') # mapStore k v m)"

lemma map_of_mapStore: "map_of (mapStore k v m) = (map_of m)(k \<mapsto> v)"
  by (induction m) auto

lemma fst_set_mapStore: "fst ` set (mapStore k v m) = insert k (fst ` set m)"
  by (induction k v m rule: mapStore.induct) auto

lemma distinct_mapStore: "distinct (map fst m) \<Longrightarrow> distinct (map fst (mapStore k v m))"
  by (induction k v m rule: mapStore.induct) (auto simp: fst_set_mapStore)

section \<open>Package device: the reset scope\<close>

text \<open>Of the struct \<open>DeviceSchema\<close> the fields read by the functions below; \<open>Ports\<close>
  and \<open>Radios\<close> are not read by them.\<close>

record DeviceSchema =
  SchemaName :: string
  SchemaVersion :: string
  SwConfig :: bool
  ConfigSections :: "(string \<times> string list) list"

text \<open>\<open>notResetSet[cfg] = true\<close> for every entry of the list.\<close>

fun notResetSetLoop :: "(string \<Rightarrow> bool) \<Rightarrow> string list \<Rightarrow> (string \<Rightarrow> bool)" where
  "notResetSetLoop notResetSet [] = notResetSet"
| "notResetSetLoop notResetSet (cfg # rest) = notResetSetLoop (notResetSet(cfg := True)) rest"

fun sectionsToResetLoop ::
  "(string \<Rightarrow> bool) \<Rightarrow> string \<Rightarrow> string list \<Rightarrow> string list \<Rightarrow> string list" where
  "sectionsToResetLoop notResetSet configKey sectionsToReset [] = sectionsToReset"
| "sectionsToResetLoop notResetSet configKey sectionsToReset (sectionKey # rest) =
     (let fullKey = configKey @ ''.'' @ sectionKey in
      if \<not> notResetSet fullKey
      then sectionsToResetLoop notResetSet configKey (sectionsToReset @ [sectionKey]) rest
      else sectionsToResetLoop notResetSet configKey sectionsToReset rest)"

text \<open>The loop over \<open>deviceSchema.ConfigSections\<close>, on the entries in visiting order.\<close>

fun configSectionsLoop ::
  "(string \<Rightarrow> bool) \<Rightarrow> (string \<times> string list) list \<Rightarrow> (string \<times> string list) list
   \<Rightarrow> (string \<times> string list) list" where
  "configSectionsLoop notResetSet result [] = result"
| "configSectionsLoop notResetSet result ((configKey, sectionKeys) # rest) =
     (if notResetSet (configKey @ ''.*'') then configSectionsLoop notResetSet result rest
      else
        let sectionsToReset = sectionsToResetLoop notResetSet configKey [] sectionKeys in
        if length sectionsToReset > 0
        then configSectionsLoop notResetSet (mapStore configKey sectionsToReset result) rest
        else configSectionsLoop notResetSet result rest)"

text \<open>\<open>visit\<close> is the order in which the run ranges over \<open>deviceSchema.ConfigSections\<close>.\<close>

definition getConfigSectionsToReset ::
  "(string \<times> string list) list \<Rightarrow> string list \<Rightarrow> (string \<times> string list) list" where
  "getConfigSectionsToReset visit configsToNotReset =
     configSectionsLoop (notResetSetLoop (\<lambda>_. False) configsToNotReset) [] visit"

text \<open>What the claim says about one group: \<open>None\<close> when the group is omitted.\<close>

definition resetScopeOf :: "string list \<Rightarrow> string \<Rightarrow> string list \<Rightarrow> string list option" where
  "resetScopeOf configsToNotReset configKey sectionKeys =
     (if configKey @ ''.*'' \<in> set configsToNotReset then None
      else if filter (\<lambda>s. configKey @ ''.'' @ s \<notin> set configsToNotReset) sectionKeys = [] then None
      else Some (filter (\<lambda>s. configKey @ ''.'' @ s \<notin> set configsToNotReset) sectionKeys))"

lemma notResetSetLoop_iff: "notResetSetLoop f xs k \<longleftrightarrow> f k \<or> k \<in> set xs"
  by (induction xs arbitrary: f) auto

lemma sectionsToResetLoop_eq:
  "sectionsToResetLoop f g acc ss = acc @ filter (\<lambda>s. \<not> f (g @ ''.'' @ s)) ss"
  by (induction ss arbitrary: acc) (simp_all add: Let_def)

lemma configSectionsLoop_lookup:
  assumes "distinct (map fst visit)"
  shows "map_of (configSectionsLoop f result visit) g =
     (case map_of visit g of
        None \<Rightarrow> map_of result g
      | Some ss \<Rightarrow>
          if f (g @ ''.*'') then map_of result g
          else if filter (\<lambda>s. \<not> f (g @ ''.'' @ s)) ss = [] then map_of result g
          else Some (filter (\<lambda>s. \<not> f (g @ ''.'' @ s)) ss))"
  using assms
proof (induction visit arbitrary: result)
  case Nil
  then show ?case by simp
next
  case (Cons e visit)
  obtain k ss where e: "e = (k, ss)" by (cases e)
  from Cons.prems e have notin: "map_of visit k = None" and d: "distinct (map fst visit)"
    by (auto simp: map_of_eq_None_iff)
  note IH = Cons.IH [OF d]
  show ?case
  proof (cases "g = k")
    case True
    from True e have e': "e = (g, ss)" by simp
    from True notin have none: "map_of visit g = None" by simp
    have after: "map_of (configSectionsLoop f r visit) g = map_of r g" for r
      by (simp add: IH none)
    show ?thesis
      by (simp add: e' after sectionsToResetLoop_eq Let_def map_of_mapStore)
  next
    case False
    have "configSectionsLoop f result (e # visit) = configSectionsLoop f result visit
        \<or> configSectionsLoop f result (e # visit) =
          configSectionsLoop f (mapStore k (sectionsToResetLoop f k [] ss) result) visit"
      by (simp add: e Let_def)
    moreover from False
    have "map_of (mapStore k (sectionsToResetLoop f k [] ss) result) g = map_of result g"
      by (simp add: map_of_mapStore)
    ultimately obtain r
      where r: "configSectionsLoop f result (e # visit) = configSectionsLoop f r visit"
      and same: "map_of r g = map_of result g" by blast
    from False have look: "map_of (e # visit) g = map_of visit g"
      by (simp add: e)
    show ?thesis
      unfolding r look IH same ..
  qed
qed

lemma configSectionsLoop_distinct:
  "distinct (map fst result) \<Longrightarrow> distinct (map fst (configSectionsLoop f result visit))"
  by (induction f result visit rule: configSectionsLoop.induct) (simp_all add: Let_def distinct_mapStore)

lemma goRange_map_of:
  assumes "distinct (map fst m)" and "goRange m visit"
  shows "map_of visit = map_of m"
proof -
  from assms(2) have d: "distinct (map fst visit)" and s: "set visit = set m"
    by (simp_all add: goRange_def)
  from map_of_inject_set [OF d assms(1)] s show ?thesis by simp
qed

text \<open>
  Claim C8: for every device schema (a map from group to section types), every order in
  which the run visits it and every exemption list, the reset scope holds for a group of the
  schema exactly the section types \<open>s\<close> with \<open><group>.s\<close> not exempted, in schema order;
  the group is absent when \<open><group>.*\<close> is exempted (whatever else is listed) or when no
  section type is left; a group that is not in the schema is absent.
\<close>

theorem getConfigSectionsToReset_scope:
  assumes "distinct (map fst (ConfigSections deviceSchema))"
    and "goRange (ConfigSections deviceSchema) visit"
  shows "map_of (getConfigSectionsToReset visit configsToNotReset) configKey =
     (case map_of (ConfigSections deviceSchema) configKey of
        None \<Rightarrow> None
      | Some sectionKeys \<Rightarrow> resetScopeOf configsToNotReset configKey sectionKeys)"
proof -
  from assms(2) have d: "distinct (map fst visit)"
    by (simp add: goRange_def)
  from assms have m: "map_of visit = map_of (ConfigSections deviceSchema)"
    by (rule goRange_map_of)
  have f: "notResetSetLoop (\<lambda>_. False) configsToNotReset k \<longleftrightarrow> k \<in> set configsToNotReset" for k
    by (simp add: notResetSetLoop_iff)
  show ?thesis
  proof (cases "map_of (ConfigSections deviceSchema) configKey")
    case None
    then show ?thesis
      by (simp add: getConfigSectionsToReset_def configSectionsLoop_lookup [OF d] m)
  next
    case (Some sectionKeys)
    then show ?thesis
      by (simp add: getConfigSectionsToReset_def configSectionsLoop_lookup [OF d] m f
          resetScopeOf_def)
  qed
qed


definition exampleSchema :: DeviceSchema where
  "exampleSchema = \<lparr>SchemaName = ''ubnt,edgerouter-x'', SchemaVersion = ''23.05'', SwConfig = False,
     ConfigSections = [(''system'', [''system'']), (''network'', [''interface'', ''device'']),
                       (''firewall'', [''zone'', ''rule''])]\<rparr>"

theorem getConfigSectionsToReset_scope_witness:
  "map_of (getConfigSectionsToReset
      [(''firewall'', [''zone'', ''rule'']), (''system'', [''system'']),
       (''network'', [''interface'', ''device''])]
      [''network.device'', ''firewall.zone'', ''firewall.*'']) ''network'' = Some [''interface'']
   \<and> map_of (getConfigSectionsToReset
      [(''firewall'', [''zone'', ''rule'']), (''system'', [''system'']),
       (''network'', [''interface'', ''device''])]
      [''network.device'', ''firewall.zone'', ''firewall.*'']) ''firewall'' = None"
proof -
  have d: "distinct (map fst (ConfigSections exampleSchema))"
    by (simp add: exampleSchema_def)
  have r: "goRange (ConfigSections exampleSchema)
      [(''firewall'', [''zone'', ''rule'']), (''system'', [''system'']),
       (''network'', [''interface'', ''device''])]"
    by (auto simp: goRange_def exampleSchema_def)
  show ?thesis
    using getConfigSectionsToReset_scope [OF d r, of "[''network.device'', ''firewall.zone'', ''firewall.*'']" "''network''"]
      getConfigSectionsToReset_scope [OF d r, of "[''network.device'', ''firewall.zone'', ''firewall.*'']" "''firewall''"]
    by (simp add: exampleSchema_def resetScopeOf_def)
qed

end
